theory Spec2Isabelle
  imports Main "HOL-Library.Word" "HOL-Library.AList"
begin

section \<open>USCH: a shallow embedding of usch.h\<close>

text \<open>
  The header \<^verbatim>\<open>usch.h\<close> is a single-file C library. C strings are modelled by
  their contents (the bytes before the terminating NUL), pointers that may be NULL by
  \<open>option\<close>, heap blocks by an explicit store, and everything the operating system
  decides (pattern matching, allocation success, wait results) by parameters.
  Undefined behaviour of the C program is a value of type \<open>fault\<close>.
\<close>

subsection \<open>The process reaper: \<^verbatim>\<open>priv_usch_waitforall\<close>\<close>

text \<open>
  What one call of \<^verbatim>\<open>waitpid\<close> reports: either the call fails (it returns -1),
  or it fills in a status word that exactly one of the macros \<^verbatim>\<open>WIFEXITED\<close>,
  \<^verbatim>\<open>WIFSIGNALED\<close>, \<^verbatim>\<open>WIFSTOPPED\<close>, \<^verbatim>\<open>WIFCONTINUED\<close> recognises
  (or none of them: \<open>W_other\<close>). \<^verbatim>\<open>WEXITSTATUS\<close> is the low eight bits of the
  exit code.
\<close>

datatype wait_result =
    W_error
  | W_exited "8 word"
  | W_signaled
  | W_stopped
  | W_continued
  | W_other

text \<open>
  How a call of the reaper ends: it returns an \<^verbatim>\<open>int\<close>, or the whole host
  process leaves through \<^verbatim>\<open>exit(EXIT_FAILURE)\<close>.
\<close>

datatype wait_outcome = Returned int | Host_exit int

definition EXIT_FAILURE :: int where
  "EXIT_FAILURE = 1"

text \<open>
  The \<^verbatim>\<open>do ... while (!WIFEXITED(status) && !WIFSIGNALED(status))\<close> loop, run
  against the sequence of results that successive \<^verbatim>\<open>waitpid\<close> calls deliver for
  the awaited pid. When the sequence is used up the process is still blocked inside
  \<^verbatim>\<open>waitpid\<close>: the function has not returned, which is \<open>None\<close>.
\<close>

fun priv_usch_waitforall :: "wait_result list \<Rightarrow> wait_outcome option" where
  "priv_usch_waitforall [] = None"
| "priv_usch_waitforall (W_error # ws) = Some (Host_exit EXIT_FAILURE)"
| "priv_usch_waitforall (W_exited c # ws) = Some (Returned (uint c))"
| "priv_usch_waitforall (W_signaled # ws) = Some (Returned (- 1))"
| "priv_usch_waitforall (W_stopped # ws) = priv_usch_waitforall ws"
| "priv_usch_waitforall (W_continued # ws) = priv_usch_waitforall ws"
| "priv_usch_waitforall (W_other # ws) = priv_usch_waitforall ws"

text \<open>The transitional states the loop goes round again for.\<close>

fun transitional :: "wait_result \<Rightarrow> bool" where
  "transitional W_stopped = True"
| "transitional W_continued = True"
| "transitional W_other = True"
| "transitional _ = False"


subsection \<open>The arena: \<^verbatim>\<open>ustash\<close> and its blocks\<close>

text \<open>Undefined behaviour of the C program, by kind.\<close>

datatype fault = Null_deref | Heap_overflow | Invalid_free

abbreviation NUL :: char where
  "NUL \<equiv> CHR 0x00"

text \<open>
  A block is a \<^verbatim>\<open>struct priv_usch_stash_item\<close>: the link, the unused
  \<^verbatim>\<open>error\<close> byte and the flexible array \<^verbatim>\<open>str\<close>. The library puts one
  of two things into \<^verbatim>\<open>str\<close>: the bytes of a string (\<open>Raw\<close>), or a table of
  pointers followed by the bytes these point into (\<open>Vec\<close>). A table entry is NULL
  (\<open>None\<close>) or an offset into the bytes of the same block.
\<close>

type_synonym addr = nat

datatype payload = Raw "char list" | Vec "nat option list" "char list"

record priv_usch_stash_item =
  p_next :: "addr option"
  error :: "8 word"
  str :: payload

text \<open>The heap holds the live blocks by address; \<^verbatim>\<open>free\<close> removes one.\<close>

type_synonym heap = "(addr \<times> priv_usch_stash_item) list"

record ustash =
  p_list :: "addr option"

text \<open>
  What a function of the library returns: NULL, one of the two static sentinels
  (\<^verbatim>\<open>emptyarr\<close> of \<^verbatim>\<open>ustrexpv\<close>, \<^verbatim>\<open>emptystr\<close> of \<^verbatim>\<open>ustrjoinv\<close>),
  or the address of the \<^verbatim>\<open>str\<close> member of a block.
\<close>

datatype ptr = Null | Emptyarr | Emptystr | Item_str addr

text \<open>
  \<^verbatim>\<open>calloc\<close> either fails (the flag, which the environment decides) or returns an
  address that no live block has. The block is entered with the contents the caller
  has written into \<^verbatim>\<open>str\<close> by the time it hands the block on.
\<close>

definition fresh :: "heap \<Rightarrow> addr" where
  "fresh h = Suc (fold max (map fst h) 0)"

definition calloc_item :: "bool \<Rightarrow> payload \<Rightarrow> heap \<Rightarrow> addr option \<times> heap" where
  "calloc_item ok pl h =
     (if ok then (Some (fresh h), (fresh h, \<lparr>p_next = None, error = 0, str = pl\<rparr>) # h)
      else (None, h))"

text \<open>
  \<^verbatim>\<open>priv_usch_stash\<close>: head insertion. The \<^verbatim>\<open>ustash\<close> is passed by
  reference, so the model returns it; a NULL \<^verbatim>\<open>ustash\<close> or block gives -1.
\<close>

definition priv_usch_stash ::
  "ustash option \<Rightarrow> addr option \<Rightarrow> heap \<Rightarrow> int \<times> ustash option \<times> heap" where
  "priv_usch_stash p_ustash p_stashitem h =
     (case p_ustash of
        None \<Rightarrow> (- 1, p_ustash, h)
      | Some u \<Rightarrow>
          (case p_stashitem of
             None \<Rightarrow> (- 1, p_ustash, h)
           | Some a \<Rightarrow>
               (0, Some (u\<lparr>p_list := Some a\<rparr>),
                AList.map_entry a (\<lambda>it. it\<lparr>p_next := p_list u\<rparr>) h)))"

text \<open>
  The loop of \<^verbatim>\<open>uclear\<close>: read the link of the current block, free the block, go
  on with the link. Reading the link of a block that is not live is undefined
  behaviour. Every round frees a live block, so the loop ends.
\<close>

function free_chain :: "addr option \<Rightarrow> heap \<Rightarrow> fault + heap" where
  "free_chain None h = Inr h"
| "free_chain (Some a) h =
     (case map_of h a of
        None \<Rightarrow> Inl Invalid_free
      | Some it \<Rightarrow> free_chain (p_next it) (AList.delete a h))"
  by pat_completeness auto
termination
proof (relation "measure (\<lambda>(p, h). length h)")
  show "wf (measure (\<lambda>(p, h). length h))" by simp
next
  fix a :: addr and h :: heap and it
  assume "map_of h a = Some it"
  then have "length (AList.delete a h) < length h"
    by (induction h)
      (auto simp: less_Suc_eq_le length_filter_le AList.delete_eq split: if_splits)
  then show "((p_next it, AList.delete a h), (Some a, h)) \<in> measure (\<lambda>(p, h). length h)"
    by simp
qed

definition uclear :: "ustash option \<Rightarrow> heap \<Rightarrow> fault + (ustash option \<times> heap)" where
  "uclear p_ustash h =
     (case p_ustash of
        None \<Rightarrow> Inr (None, h)
      | Some u \<Rightarrow>
          (if p_list u = None then Inr (Some u, h)
           else (case free_chain (p_list u) h of
                   Inl f \<Rightarrow> Inl f
                 | Inr h' \<Rightarrow> Inr (Some (u\<lparr>p_list := None\<rparr>), h'))))"

text \<open>\<open>n\<close> consecutive calls of \<^verbatim>\<open>uclear\<close> on the same \<^verbatim>\<open>ustash\<close>.\<close>

fun uclear_times ::
  "nat \<Rightarrow> ustash option \<Rightarrow> heap \<Rightarrow> fault + (ustash option \<times> heap)" where
  "uclear_times 0 p_ustash h = Inr (p_ustash, h)"
| "uclear_times (Suc n) p_ustash h =
     (case uclear p_ustash h of
        Inl f \<Rightarrow> Inl f
      | Inr (p', h') \<Rightarrow> uclear_times n p' h')"

text \<open>
  An arena state: from \<open>p\<close> the links lead through the live blocks \<open>as\<close>, in this
  order, to NULL.
\<close>

fun chain :: "heap \<Rightarrow> addr option \<Rightarrow> addr list \<Rightarrow> bool" where
  "chain h p [] = (p = None)"
| "chain h p (a # as) =
     (p = Some a \<and> (case map_of h a of None \<Rightarrow> False | Some it \<Rightarrow> chain h (p_next it) as))"


subsection \<open>The tokenizer and the joiner: \<^verbatim>\<open>ustrsplit\<close>, \<^verbatim>\<open>ustrjoinv\<close>\<close>

text \<open>
  A C string is given by its contents, which hold no NUL. \<open>cstr_at buf off\<close> reads
  the C string that starts at offset \<open>off\<close> of a byte buffer, as \<^verbatim>\<open>strlen\<close> and
  \<^verbatim>\<open>memcpy\<close> of the callers do.
\<close>

definition c_string :: "string \<Rightarrow> bool" where
  "c_string s = (NUL \<notin> set s)"

definition cstr_at :: "char list \<Rightarrow> nat \<Rightarrow> string" where
  "cstr_at buf off = takeWhile (\<lambda>c. c \<noteq> NUL) (drop off buf)"

text \<open>
  The first pair of nested loops of \<^verbatim>\<open>ustrsplit\<close> counts, starting from 1, every
  pair of a position of the input and a position of the delimiter set that hold the
  same byte: this is \<^verbatim>\<open>num_str\<close>, which sizes the pointer table.
\<close>

definition split_count :: "string \<Rightarrow> string \<Rightarrow> nat" where
  "split_count p_in p_delims =
     fold (\<lambda>i n. fold (\<lambda>d n. if p_in ! i = d then Suc n else n) p_delims n)
       [0..<length p_in] 1"

text \<open>
  The second pair of loops works on the private copy \<^verbatim>\<open>p_out\<close> of the input
  (terminator included): a byte that equals a delimiter is overwritten with NUL and
  the address of the next byte is appended to the table, whose first entry is the
  start of the copy. The table is kept as offsets into the copy.
\<close>

definition split_mark :: "nat \<Rightarrow> char \<Rightarrow> char list \<times> nat list \<Rightarrow> char list \<times> nat list" where
  "split_mark i d st =
     (case st of (p_out, tab) \<Rightarrow>
        if p_out ! i = d then (p_out[i := NUL], tab @ [Suc i]) else (p_out, tab))"

definition split_scan :: "string \<Rightarrow> string \<Rightarrow> char list \<times> nat list" where
  "split_scan p_in p_delims =
     fold (\<lambda>i st. fold (split_mark i) p_delims st) [0..<length p_in] (p_in @ [NUL], [0])"

text \<open>
  \<^verbatim>\<open>ustrsplit\<close>. All three parameters may be NULL. The table has
  \<^verbatim>\<open>num_str + 1\<close> entries, zeroed by \<^verbatim>\<open>calloc\<close>; writing more entries than that
  would overflow the block. On every path through \<^verbatim>\<open>end\<close> taken before the
  allocation succeeded the function returns \<^verbatim>\<open>pp_out\<close>, which is still NULL.
\<close>

definition ustrsplit ::
  "bool \<Rightarrow> ustash option \<Rightarrow> string option \<Rightarrow> string option \<Rightarrow> heap
     \<Rightarrow> fault + (ptr \<times> ustash option \<times> heap)" where
  "ustrsplit calloc_ok p_ustash p_in p_delims h =
     (case p_ustash of
        None \<Rightarrow> Inr (Null, p_ustash, h)
      | Some u \<Rightarrow>
     (case p_in of
        None \<Rightarrow> Inr (Null, p_ustash, h)
      | Some s \<Rightarrow>
     (case p_delims of
        None \<Rightarrow> Inr (Null, p_ustash, h)
      | Some ds \<Rightarrow>
          (let num_str = split_count s ds in
           case split_scan s ds of (p_out, tab) \<Rightarrow>
             (case calloc_item calloc_ok
                     (Vec (map Some tab @ replicate (Suc num_str - length tab) None) p_out) h of
                (None, h1) \<Rightarrow> Inr (Null, p_ustash, h1)
              | (Some a, h1) \<Rightarrow>
                  if Suc num_str < length tab then Inl Heap_overflow
                  else (case priv_usch_stash p_ustash (Some a) h1 of
                          (status, p_ustash', h2) \<Rightarrow>
                            if status \<noteq> 0 then Inr (Item_str a, p_ustash', AList.delete a h2)
                            else Inr (Item_str a, p_ustash', h2)))))))"

text \<open>
  \<^verbatim>\<open>ustrjoinv\<close>: the strings of a NULL-terminated vector, concatenated into a new
  block. The vector is given by the contents of its strings; it may be NULL.
\<close>

definition ustrjoinv ::
  "bool \<Rightarrow> ustash option \<Rightarrow> string list option \<Rightarrow> heap \<Rightarrow> ptr \<times> ustash option \<times> heap" where
  "ustrjoinv calloc_ok p_ustash pp_strings h =
     (case pp_strings of
        None \<Rightarrow> (Emptystr, p_ustash, h)
      | Some strs \<Rightarrow>
          (case calloc_item calloc_ok (Raw (concat strs @ [NUL])) h of
             (None, h1) \<Rightarrow> (Emptystr, p_ustash, h1)
           | (Some a, h1) \<Rightarrow>
               (case priv_usch_stash p_ustash (Some a) h1 of
                  (status, p_ustash', h2) \<Rightarrow>
                    if status \<noteq> 0 then (Emptystr, p_ustash', h2)
                    else (Item_str a, p_ustash', h2))))"

text \<open>
  What a caller reads through a returned pointer: the strings of a NULL-terminated
  vector, and the C string behind a \<^verbatim>\<open>char *\<close>. \<open>None\<close> when the pointer
  does not lead to such an object.
\<close>

definition vector_at :: "heap \<Rightarrow> ptr \<Rightarrow> string list option" where
  "vector_at h p =
     (case p of
        Emptyarr \<Rightarrow> Some []
      | Item_str a \<Rightarrow>
          (case map_of h a of
             Some it \<Rightarrow>
               (case str it of
                  Vec tab bytes \<Rightarrow>
                    if None \<in> set tab
                    then Some (map (\<lambda>e. cstr_at bytes (the e)) (takeWhile (\<lambda>e. e \<noteq> None) tab))
                    else None
                | Raw bytes \<Rightarrow> None)
           | None \<Rightarrow> None)
      | _ \<Rightarrow> None)"

definition string_at :: "heap \<Rightarrow> ptr \<Rightarrow> string option" where
  "string_at h p =
     (case p of
        Emptystr \<Rightarrow> Some []
      | Item_str a \<Rightarrow>
          (case map_of h a of
             Some it \<Rightarrow>
               (case str it of
                  Raw bytes \<Rightarrow> if NUL \<in> set bytes then Some (cstr_at bytes 0) else None
                | Vec tab bytes \<Rightarrow> None)
           | None \<Rightarrow> None)
      | _ \<Rightarrow> None)"

text \<open>The vector a caller builds to rejoin slots with a delimiter between them.\<close>

fun interpose :: "string \<Rightarrow> string list \<Rightarrow> string list" where
  "interpose d [] = []"
| "interpose d [x] = [x]"
| "interpose d (x # y # ys) = x # d # interpose d (y # ys)"

text \<open>
  A returned pointer is arena-owned when it is the \<^verbatim>\<open>str\<close> of a live block that
  heads the list of the caller's \<^verbatim>\<open>ustash\<close>, where \<^verbatim>\<open>priv_usch_stash\<close> puts it.
\<close>

definition arena_owned :: "ptr \<Rightarrow> ustash option \<Rightarrow> heap \<Rightarrow> bool" where
  "arena_owned p p_ustash h =
     (case p of
        Item_str a \<Rightarrow>
          (case p_ustash of
             None \<Rightarrow> False
           | Some u \<Rightarrow> p_list u = Some a \<and> map_of h a \<noteq> None)
      | _ \<Rightarrow> False)"

subsection \<open>Pattern expansion: \<^verbatim>\<open>priv_usch_globexpand\<close>, \<^verbatim>\<open>ustrexpv\<close>\<close>

text \<open>
  The environment of an expansion: which paths the file system matches to a pattern
  (\<open>None\<close> when the matching itself fails), and which allocations succeed.
\<close>

record glob_env =
  fs_matches :: "string \<Rightarrow> string list option"
  node_alloc_ok :: "nat \<Rightarrow> bool"
  argv_alloc_ok :: bool

text \<open>
  \<^verbatim>\<open>glob\<close> as the source calls it, with \<^verbatim>\<open>GLOB_NOCHECK\<close>: a pattern that matches
  nothing is returned itself, and the call succeeds.
\<close>

definition glob_call :: "glob_env \<Rightarrow> string \<Rightarrow> string list option" where
  "glob_call env pattern =
     (case fs_matches env pattern of
        None \<Rightarrow> None
      | Some ms \<Rightarrow> Some (if ms = [] then [pattern] else ms))"

text \<open>
  The first loop: one list node per argument up to the separator \<^verbatim>\<open>"--"\<close>. It
  yields the \<^verbatim>\<open>gl_pathv\<close> of the nodes in order and \<^verbatim>\<open>orig_arg_idx\<close>, the number
  of arguments consumed, separator included; \<open>None\<close> when an allocation or
  \<^verbatim>\<open>glob\<close> fails (\<^verbatim>\<open>goto end\<close> with a NULL result).
\<close>

fun glob_args :: "glob_env \<Rightarrow> nat \<Rightarrow> string list \<Rightarrow> (string list list \<times> nat) option" where
  "glob_args env i [] = Some ([], i)"
| "glob_args env i (a # as) =
     (if a = ''--'' then Some ([], Suc i)
      else if \<not> node_alloc_ok env i then None
      else (case glob_call env a of
              None \<Rightarrow> None
            | Some ms \<Rightarrow>
                (case glob_args env (Suc i) as of
                   None \<Rightarrow> None
                 | Some (nodes, idx) \<Rightarrow> Some (ms # nodes, idx))))"

text \<open>Consecutive array writes from index \<open>k\<close> on; a write past the end is a fault.\<close>

fun store_all :: "'a option list \<Rightarrow> nat \<Rightarrow> 'a list \<Rightarrow> fault + 'a option list" where
  "store_all arr k [] = Inr arr"
| "store_all arr k (v # vs) =
     (if k < length arr then store_all (arr[k := Some v]) (Suc k) vs else Inl Heap_overflow)"

text \<open>
  \<^verbatim>\<open>priv_usch_globexpand\<close>. The result array has
  \<^verbatim>\<open>num_glob_items + num_args - orig_arg_idx + 1\<close> zeroed slots. The paths of all
  nodes are written from slot 0. The tail loop then writes argument \<open>i\<close>, for \<open>i\<close>
  from \<^verbatim>\<open>orig_arg_idx\<close>, into slot \<^verbatim>\<open>j + i\<close>, where \<^verbatim>\<open>j\<close> is what the copy loop
  left in it: the path count of the last node, or 0 without nodes. The result is the
  array (NULL when the first loop failed) and the node list handed to the caller.
\<close>

definition priv_usch_globexpand ::
  "glob_env \<Rightarrow> string list \<Rightarrow> fault + (string option list option \<times> string list list)" where
  "priv_usch_globexpand env pp_orig_argv =
     (case glob_args env 0 pp_orig_argv of
        None \<Rightarrow> Inr (None, [])
      | Some (nodes, orig_arg_idx) \<Rightarrow>
          (let num_glob_items = length (concat nodes);
               num_args = length pp_orig_argv;
               j = (if nodes = [] then 0 else length (last nodes));
               tail = drop orig_arg_idx pp_orig_argv
           in if \<not> argv_alloc_ok env
              then (if concat nodes = [] \<and> tail = [] then Inr (None, nodes) else Inl Null_deref)
              else (case store_all (replicate (num_glob_items + num_args - orig_arg_idx + 1) None)
                           0 (concat nodes) of
                      Inl f \<Rightarrow> Inl f
                    | Inr arr \<Rightarrow>
                        (case store_all arr (j + orig_arg_idx) tail of
                           Inl f \<Rightarrow> Inl f
                         | Inr arr' \<Rightarrow> Inr (Some arr', nodes)))))"

text \<open>
  The sequence a caller reads from the array: the slots before the first NULL. An
  array without a NULL would be read past its end.
\<close>

definition read_argv :: "string option list \<Rightarrow> fault + string list" where
  "read_argv arr =
     (if None \<in> set arr then Inr (map the (takeWhile (\<lambda>e. e \<noteq> None) arr))
      else Inl Heap_overflow)"

text \<open>
  \<^verbatim>\<open>ustrexpv\<close>: the expansion copied into one block, a table of pointers followed
  by the strings. The counting loop reads \<^verbatim>\<open>pp_strings[0]\<close> before the NULL test.
\<close>

fun str_offsets :: "nat \<Rightarrow> string list \<Rightarrow> nat list" where
  "str_offsets pos [] = []"
| "str_offsets pos (x # xs) = pos # str_offsets (pos + length x + 1) xs"

definition ustrexpv ::
  "glob_env \<Rightarrow> bool \<Rightarrow> ustash option \<Rightarrow> string list option \<Rightarrow> heap
     \<Rightarrow> fault + (ptr \<times> ustash option \<times> heap)" where
  "ustrexpv env calloc_ok p_ustash pp_strings h =
     (case pp_strings of
        None \<Rightarrow> Inl Null_deref
      | Some strs \<Rightarrow>
          (case priv_usch_globexpand env strs of
             Inl f \<Rightarrow> Inl f
           | Inr (None, p_glob_list) \<Rightarrow> Inr (Emptyarr, p_ustash, h)
           | Inr (Some pp_strexp_extmem, p_glob_list) \<Rightarrow>
               (case read_argv pp_strexp_extmem of
                  Inl f \<Rightarrow> Inl f
                | Inr ext \<Rightarrow>
                    (case calloc_item calloc_ok
                            (Vec (map Some (str_offsets 0 ext) @ [None])
                               (concat (map (\<lambda>x. x @ [NUL]) ext))) h of
                       (None, h1) \<Rightarrow> Inr (Emptyarr, p_ustash, h1)
                     | (Some a, h1) \<Rightarrow>
                         (case priv_usch_stash p_ustash (Some a) h1 of
                            (status, p_ustash', h2) \<Rightarrow>
                              if status \<noteq> 0 then Inr (Emptyarr, p_ustash', h2)
                              else Inr (Item_str a, p_ustash', h2))))))"


subsection \<open>Executable resolution: \<^verbatim>\<open>priv_usch_cached_whereis\<close>\<close>

text \<open>
  The environment: for which paths \<^verbatim>\<open>stat\<close> succeeds, and which of the three
  allocations of the function succeed.
\<close>

record whereis_env =
  stat_ok :: "string \<Rightarrow> bool"
  relarray_alloc_ok :: bool
  item_copy_alloc_ok :: bool
  dest_alloc_ok :: bool

text \<open>
  The probing loop over the directories. The function's result is the status and
  what it stored through \<^verbatim>\<open>pp_dest\<close>, if anything. The stored buffer comes from
  \<^verbatim>\<open>malloc\<close> and receives \<^verbatim>\<open>dir_length + item_length + 1\<close> bytes of the path:
  all its characters but not the terminator, so its last byte is indeterminate
  (\<open>None\<close>).
\<close>

fun probe_paths :: "whereis_env \<Rightarrow> string list \<Rightarrow> string \<Rightarrow> int \<times> char option list option" where
  "probe_paths env [] p_item = (0, None)"
| "probe_paths env (dir # dirs) p_item =
     (let new_path = dir @ ''/'' @ p_item
      in if \<not> stat_ok env new_path then probe_paths env dirs p_item
         else if \<not> dest_alloc_ok env then (- 1, None)
         else (1, Some (map Some new_path @ [None])))"

text \<open>
  \<^verbatim>\<open>priv_usch_cached_whereis\<close>, with \<^verbatim>\<open>path_items\<close> the length of the list. For a
  name that starts with \<^verbatim>\<open>/\<close> or \<^verbatim>\<open>.\<close> the function allocates a zeroed buffer
  \<^verbatim>\<open>p_item_copy\<close> as long as the name, copies nothing into it, and looks for the last
  \<^verbatim>\<open>/\<close> in that buffer. Had it found one, the probing loop would read
  \<^verbatim>\<open>item_length\<close> bytes from behind it, past the end of the buffer.
\<close>

definition priv_usch_cached_whereis ::
  "whereis_env \<Rightarrow> string list \<Rightarrow> string \<Rightarrow> fault + (int \<times> char option list option)" where
  "priv_usch_cached_whereis env pp_cached_path p_search_item =
     (if p_search_item \<noteq> [] \<and> (hd p_search_item = CHR ''/'' \<or> hd p_search_item = CHR ''.'')
      then
        if \<not> relarray_alloc_ok env then Inr (- 1, None)
        else if \<not> item_copy_alloc_ok env then Inr (- 1, None)
        else
          (let item_length = length p_search_item;
               p_item_copy = replicate item_length NUL;
               basename_index =
                 fold (\<lambda>i b. if p_item_copy ! i = CHR ''/'' then int i else b)
                   [0..<item_length] (- 1)
           in if basename_index < 0 then Inr (- 1, None) else Inl Heap_overflow)
      else Inr (probe_paths env pp_cached_path p_search_item))"

subsection \<open>The pipeline executor: \<^verbatim>\<open>priv_usch_cmd_arr\<close>\<close>

text \<open>
  What the calling process does to the system, in order. A fork records what the
  child is started with: the argument vector of its stage, the input descriptor and
  the flags \<^verbatim>\<open>first\<close>, \<^verbatim>\<open>last\<close> and whether output is captured, from which the
  child wires its descriptors before \<^verbatim>\<open>execvp\<close>.
\<close>

datatype sys_event =
    Ev_chdir "string option"
  | Ev_pipe
  | Ev_fork "string list" int bool bool bool
  | Ev_close int
  | Ev_read int
  | Ev_waitpid int

text \<open>
  What the system answers: the value of \<^verbatim>\<open>HOME\<close>, the descriptors of the \<open>k\<close>-th
  pipe and the pid of the \<open>k\<close>-th fork, the bytes the last stage writes, which
  buffer sizes \<^verbatim>\<open>calloc\<close> and \<^verbatim>\<open>realloc\<close> grant, and the results of the
  \<^verbatim>\<open>waitpid\<close> calls.
\<close>

record exec_env =
  globbing :: glob_env
  env_HOME :: "string option"
  pipe_fds :: "nat \<Rightarrow> int \<times> int"
  fork_pid :: "nat \<Rightarrow> int"
  pipe_output :: "char list"
  capture_alloc_ok :: "nat \<Rightarrow> bool"
  wait_results :: "wait_result list"

text \<open>
  The state of one call: the events so far, the number of stages spawned, the
  variable \<^verbatim>\<open>child_pid\<close>, and the captured text stored through \<^verbatim>\<open>pp_out\<close>.
\<close>

record exec_state =
  trace :: "sys_event list"
  n_spawned :: nat
  child_pid :: int
  captured :: "string option"

definition ustreq :: "string option \<Rightarrow> string option \<Rightarrow> bool" where
  "ustreq p_a p_b =
     (case p_a of
        None \<Rightarrow> False
      | Some a \<Rightarrow> (case p_b of None \<Rightarrow> False | Some b \<Rightarrow> a = b))"

text \<open>
  The capture loop reads byte by byte into a buffer of 1024 bytes that doubles when
  it is full; it fails when a \<^verbatim>\<open>realloc\<close> is refused.
\<close>

fun capture_read :: "(nat \<Rightarrow> bool) \<Rightarrow> nat \<Rightarrow> nat \<Rightarrow> char list \<Rightarrow> bool" where
  "capture_read ok read_size i [] = True"
| "capture_read ok read_size i (b # bs) =
     (if read_size \<le> Suc i
      then (if ok (2 * read_size) then capture_read ok (2 * read_size) (Suc i) bs else False)
      else capture_read ok read_size (Suc i) bs)"

definition strip_newline :: "char list \<Rightarrow> char list" where
  "strip_newline bs = (if bs \<noteq> [] \<and> last bs = CHR 0x0A then butlast bs else bs)"

text \<open>
  \<^verbatim>\<open>priv_usch_command\<close>, the parent's side: pipe, fork, close the previous read end
  and the new write end, drain the pipe when this is the last stage of a capturing
  call, close the read end after the last stage. It returns the new read end. When an
  allocation of the capture buffer fails the function leaves through \<^verbatim>\<open>end\<close>
  before \<^verbatim>\<open>child_pid\<close> and \<^verbatim>\<open>*pp_out\<close> are written.
\<close>

definition priv_usch_command ::
  "exec_env \<Rightarrow> string list \<Rightarrow> int \<Rightarrow> bool \<Rightarrow> bool \<Rightarrow> bool \<Rightarrow> exec_state \<Rightarrow> int \<times> exec_state" where
  "priv_usch_command env pp_argv input first is_last capture st =
     (let k = n_spawned st;
          rfd = fst (pipe_fds env k);
          wfd = snd (pipe_fds env k);
          st1 = st\<lparr>trace := trace st @ [Ev_pipe, Ev_fork pp_argv input first is_last capture]
                        @ (if input \<noteq> 0 then [Ev_close input] else []) @ [Ev_close wfd],
                   n_spawned := Suc k\<rparr>
      in if capture \<and> is_last then
           (if \<not> capture_alloc_ok env 1024 then (rfd, st1)
            else if \<not> capture_read (capture_alloc_ok env) 1024 0 (pipe_output env)
            then (rfd, st1\<lparr>trace := trace st1 @ [Ev_read rfd]\<rparr>)
            else (rfd, st1\<lparr>trace := trace st1 @ [Ev_read rfd, Ev_close rfd],
                           child_pid := fork_pid env k,
                           captured := Some (strip_newline (pipe_output env))\<rparr>))
         else (rfd, st1\<lparr>trace := trace st1 @ (if is_last then [Ev_close rfd] else []),
                        child_pid := fork_pid env k,
                        captured := (if capture then None else captured st1)\<rparr>))"

definition priv_usch_run ::
  "exec_env \<Rightarrow> string list \<Rightarrow> int \<Rightarrow> bool \<Rightarrow> bool \<Rightarrow> bool \<Rightarrow> exec_state \<Rightarrow> int \<times> exec_state" where
  "priv_usch_run env pp_argv input first is_last capture st =
     (if pp_argv \<noteq> [] then priv_usch_command env pp_argv input first is_last capture st
      else (0, st))"

text \<open>
  The first loop of \<^verbatim>\<open>priv_usch_cmd_arr\<close> overwrites every slot whose first byte is
  \<^verbatim>\<open>|\<close> with NULL. \<open>slot\<close> reads the rewritten array, whose slot \<^verbatim>\<open>argc\<close> is
  the terminator.
\<close>

definition rewrite_pipes :: "string list \<Rightarrow> string option list" where
  "rewrite_pipes toks = map (\<lambda>t. if t \<noteq> [] \<and> hd t = CHR ''|'' then None else Some t) toks"

definition slot :: "string option list \<Rightarrow> nat \<Rightarrow> string option" where
  "slot pp_argv k = (if k < length pp_argv then pp_argv ! k else None)"

text \<open>The argument vector of the stage that starts at the head of the remaining slots.\<close>

definition stage_of :: "string option list \<Rightarrow> string list" where
  "stage_of slots = map the (takeWhile (\<lambda>e. e \<noteq> None) slots)"

text \<open>
  The stage loop, on the slots from index \<open>i\<close> to \<^verbatim>\<open>argc\<close>: a stage is last when
  no NULL follows; after running it the index moves past its slots and past one
  separator.
\<close>

function run_stages ::
  "exec_env \<Rightarrow> bool \<Rightarrow> string option list \<Rightarrow> int \<Rightarrow> bool \<Rightarrow> exec_state
     \<Rightarrow> int \<times> bool \<times> exec_state" where
  "run_stages env capture [] input first st = (input, first, st)"
| "run_stages env capture (x # xs) input first st =
     (let is_last = (None \<notin> set (x # xs));
          r = priv_usch_run env (stage_of (x # xs)) input first is_last capture st
      in run_stages env capture (tl (dropWhile (\<lambda>e. e \<noteq> None) (x # xs))) (fst r) False (snd r))"
  by pat_completeness auto
termination
proof (relation "measure (\<lambda>(env, capture, slots, input, first, st). length slots)")
  show "wf (measure (\<lambda>(env, capture, slots, input, first, st). length slots))"
    by simp
next
  fix x :: "string option" and xs :: "string option list"
  have "length (tl (dropWhile (\<lambda>e. e \<noteq> None) (x # xs))) < length (x # xs)"
  proof (cases x)
    case None
    then show ?thesis by simp
  next
    case (Some t)
    have "length (dropWhile (\<lambda>e. e \<noteq> None) xs) \<le> length xs"
      by (rule length_dropWhile_le)
    with Some show ?thesis by simp
  qed
  then show "\<And>env capture input first st xa xb.
       ((env, capture, tl (dropWhile (\<lambda>e. e \<noteq> None) (x # xs)), fst xb, False, snd xb),
        (env, capture, x # xs, input, first, st))
       \<in> measure (\<lambda>(env, capture, slots, input, first, st). length slots)"
    by simp
qed

text \<open>
  \<^verbatim>\<open>priv_usch_cmd_arr\<close> from the rewriting loop on, for the expanded sequence
  \<open>toks\<close>: the \<^verbatim>\<open>cd\<close> builtin, or the stages followed by the join. The result is
  how the call ends (status 0 after \<^verbatim>\<open>cd\<close>) and the final state.
\<close>

definition exec_argv :: "exec_env \<Rightarrow> bool \<Rightarrow> string list \<Rightarrow> wait_outcome option \<times> exec_state" where
  "exec_argv env capture toks =
     (let pp_argv = rewrite_pipes toks;
          st0 = \<lparr>trace = [], n_spawned = 0, child_pid = 0, captured = None\<rparr>
      in if ustreq (slot pp_argv 0) (Some ''cd'') then
           (case slot pp_argv 1 of
              None \<Rightarrow> (Some (Returned 0), st0\<lparr>trace := [Ev_chdir (env_HOME env)]\<rparr>)
            | Some dir \<Rightarrow> (Some (Returned 0), st0\<lparr>trace := [Ev_chdir (Some dir)]\<rparr>))
         else
           (case run_stages env capture pp_argv 0 True st0 of
              (input, first, st) \<Rightarrow>
                (let st' = (if \<not> capture then snd (priv_usch_run env [] input first True capture st)
                            else st)
                 in (priv_usch_waitforall (wait_results env),
                     st'\<lparr>trace := trace st' @ [Ev_waitpid (child_pid st')]\<rparr>))))"

definition priv_usch_cmd_arr ::
  "exec_env \<Rightarrow> bool \<Rightarrow> string list \<Rightarrow> fault + (wait_outcome option \<times> exec_state)" where
  "priv_usch_cmd_arr env capture pp_orig_argv =
     (case priv_usch_globexpand (globbing env) pp_orig_argv of
        Inl f \<Rightarrow> Inl f
      | Inr (None, p_glob_list) \<Rightarrow>
          Inr (Some (Returned 0), \<lparr>trace = [], n_spawned = 0, child_pid = 0, captured = None\<rparr>)
      | Inr (Some pp_argv, p_glob_list) \<Rightarrow>
          (case read_argv pp_argv of
             Inl f \<Rightarrow> Inl f
           | Inr toks \<Rightarrow> Inr (exec_argv env capture toks)))"

section \<open>Properties\<close>

subsection \<open>The process reaper\<close>

lemma waitforall_skip:
  "list_all transitional pre \<Longrightarrow>
   priv_usch_waitforall (pre @ ws) = priv_usch_waitforall ws"
proof (induction pre)
  case Nil
  show ?case by simp
next
  case (Cons w pre)
  then show ?case by (cases w) simp_all
qed

text \<open>
  Claim C3. Whatever stopped or continued reports come first, the reaper loops past
  them. At the first report that is not transitional it ends: with the exit code, a
  number from 0 to 255, when the process exited; with the sentinel -1 when a signal
  killed it; and by terminating the host process with \<^verbatim>\<open>EXIT_FAILURE\<close>, not by
  returning, when \<^verbatim>\<open>waitpid\<close> itself failed. Nothing that follows matters.
\<close>

theorem waitforall_join:
  "list_all transitional pre \<Longrightarrow>
     (priv_usch_waitforall (pre @ W_exited c # rest) = Some (Returned (uint c))
        \<and> 0 \<le> uint c \<and> uint c \<le> 255)
     \<and> priv_usch_waitforall (pre @ W_signaled # rest) = Some (Returned (- 1))
     \<and> priv_usch_waitforall (pre @ W_error # rest) = Some (Host_exit EXIT_FAILURE)
     \<and> priv_usch_waitforall pre = None"
proof -
  assume pre: "list_all transitional pre"
  have bound: "uint c \<le> 255"
    using uint_bounded [of c] by simp
  have blocked: "priv_usch_waitforall pre = None"
    using waitforall_skip [OF pre, of "[]"] by simp
  show ?thesis
    using waitforall_skip [OF pre] bound blocked by simp
qed

theorem waitforall_join_witness:
  "list_all transitional [W_stopped, W_continued]
   \<and> priv_usch_waitforall ([W_stopped, W_continued] @ W_exited 3 # [W_signaled])
       = Some (Returned 3)
   \<and> priv_usch_waitforall ([W_stopped, W_continued] @ W_signaled # []) = Some (Returned (- 1))
   \<and> priv_usch_waitforall ([W_stopped, W_continued] @ W_error # []) = Some (Host_exit 1)"
  using waitforall_join [of "[W_stopped, W_continued]" 3 "[W_signaled]"]
    waitforall_join [of "[W_stopped, W_continued]" 3 "[]"]
  by (simp add: EXIT_FAILURE_def)

subsection \<open>The arena\<close>

lemma chain_unique: "chain h p as \<Longrightarrow> chain h p bs \<Longrightarrow> as = bs"
proof (induction as arbitrary: p bs)
  case Nil
  then show ?case by (cases bs) auto
next
  case (Cons a as)
  then show ?case by (cases bs) (auto split: option.splits)
qed

lemma chain_suffix: "chain h p (xs @ ys) \<Longrightarrow> \<exists>q. chain h q ys"
proof (induction xs arbitrary: p)
  case Nil
  then show ?case by auto
next
  case (Cons x xs)
  then show ?case by (cases "map_of h x") auto
qed

text \<open>A chain that ends in NULL visits no block twice.\<close>

lemma chain_distinct: "chain h p as \<Longrightarrow> distinct as"
proof (induction as arbitrary: p)
  case Nil
  show ?case by simp
next
  case (Cons a as)
  from Cons.prems obtain it where it: "map_of h a = Some it" "chain h (p_next it) as"
    by (auto split: option.splits)
  have "a \<notin> set as"
  proof
    assume "a \<in> set as"
    then obtain xs ys where split: "as = xs @ a # ys" by (auto simp: in_set_conv_decomp)
    with it(2) obtain q where "chain h q (a # ys)" using chain_suffix by blast
    then have "chain h (Some a) (a # ys)" by simp
    moreover have "chain h (Some a) (a # as)" using Cons.prems by simp
    ultimately have "a # ys = a # as" using chain_unique by blast
    with split show False by simp
  qed
  with Cons.IH [OF it(2)] show ?case by simp
qed

lemma chain_delete:
  "chain h p as \<Longrightarrow> a \<notin> set as \<Longrightarrow> chain (AList.delete a h) p as"
  by (induction as arbitrary: p) (auto simp: delete_conv split: option.splits)

lemma free_chain_ok:
  "chain h p as \<Longrightarrow> free_chain p h = Inr (filter (\<lambda>e. fst e \<notin> set as) h)"
proof (induction as arbitrary: p h)
  case Nil
  then show ?case by simp
next
  case (Cons a as)
  from Cons.prems obtain it
    where it: "p = Some a" "map_of h a = Some it" "chain h (p_next it) as"
    by (auto split: option.splits)
  have "a \<notin> set as" using chain_distinct [OF Cons.prems] by simp
  with it(3) have "chain (AList.delete a h) (p_next it) as" by (rule chain_delete)
  from Cons.IH [OF this] it show ?case
    by (auto simp: AList.delete_eq case_prod_unfold intro!: filter_cong)
qed

text \<open>
  Claim C8. In every arena state (the list of the \<^verbatim>\<open>ustash\<close> leads through live
  blocks to NULL; the never-used and the already-cleared arena are the case of no
  block), one call of \<^verbatim>\<open>uclear\<close> returns normally, resets the list to NULL and
  frees exactly the blocks of the list; and any number of consecutive calls, the first
  included, ends in the very state the first call left: every one of them is safe and
  leaves the arena empty.
\<close>

theorem uclear_idempotent:
  assumes "chain h (p_list u) as"
  shows "uclear (Some u) h
           = Inr (Some (u\<lparr>p_list := None\<rparr>), filter (\<lambda>e. fst e \<notin> set as) h)
     \<and> uclear_times (Suc n) (Some u) h = uclear (Some u) h"
proof -
  let ?h' = "filter (\<lambda>e. fst e \<notin> set as) h"
  let ?u' = "u\<lparr>p_list := None\<rparr>"
  have once: "uclear (Some u) h = Inr (Some ?u', ?h')"
  proof (cases "p_list u")
    case None
    with assms have "as = []" by (cases as) auto
    with None show ?thesis by (simp add: uclear_def)
  next
    case (Some a)
    with free_chain_ok [OF assms] show ?thesis by (simp add: uclear_def)
  qed
  have again: "uclear_times k (Some ?u') g = Inr (Some ?u', g)" for k g
    by (induction k) (simp_all add: uclear_def)
  show ?thesis using once again by simp
qed

theorem uclear_idempotent_witness:
  "chain [(2, \<lparr>p_next = Some 1, error = 0, str = Raw ''a''\<rparr>),
          (1, \<lparr>p_next = None, error = 0, str = Raw ''b''\<rparr>),
          (7, \<lparr>p_next = None, error = 0, str = Raw ''c''\<rparr>)]
         (p_list \<lparr>p_list = Some 2\<rparr>) [2, 1]
   \<and> uclear_times 3 (Some \<lparr>p_list = Some 2\<rparr>)
         [(2, \<lparr>p_next = Some 1, error = 0, str = Raw ''a''\<rparr>),
          (1, \<lparr>p_next = None, error = 0, str = Raw ''b''\<rparr>),
          (7, \<lparr>p_next = None, error = 0, str = Raw ''c''\<rparr>)]
       = Inr (Some \<lparr>p_list = None\<rparr>, [(7, \<lparr>p_next = None, error = 0, str = Raw ''c''\<rparr>)])"
proof -
  let ?h = "[(2, \<lparr>p_next = Some 1, error = 0, str = Raw ''a''\<rparr>),
          (1, \<lparr>p_next = None, error = 0, str = Raw ''b''\<rparr>),
          (7::nat, \<lparr>p_next = None, error = 0, str = Raw ''c''\<rparr>)]"
  have c: "chain ?h (p_list \<lparr>p_list = Some 2\<rparr>) [2, 1]" by simp
  have "uclear_times (Suc 2) (Some \<lparr>p_list = Some 2\<rparr>) ?h
          = Inr (Some (\<lparr>p_list = Some 2\<rparr>\<lparr>p_list := None\<rparr>),
                 filter (\<lambda>e. fst e \<notin> set [2, 1]) ?h)"
    using uclear_idempotent [OF c, of 2] by (elim conjE) (simp only:)
  moreover have "Suc 2 = 3" by simp
  ultimately have "uclear_times 3 (Some \<lparr>p_list = Some 2\<rparr>) ?h
          = Inr (Some \<lparr>p_list = None\<rparr>, [(7, \<lparr>p_next = None, error = 0, str = Raw ''c''\<rparr>)])"
    by simp
  with c show ?thesis by blast
qed

text \<open>
  Claim C10. Called with a NULL \<^verbatim>\<open>ustash\<close> pointer, \<^verbatim>\<open>uclear\<close> returns at
  once: nothing is dereferenced (no fault is possible) and the heap is unchanged.
\<close>

theorem uclear_null_noop: "uclear None h = Inr (None, h)"
  by (simp add: uclear_def)

subsection \<open>Splitting and rejoining\<close>

text \<open>With one delimiter the two loops of \<^verbatim>\<open>ustrsplit\<close> have closed forms.\<close>

lemma count_fold:
  "fold (\<lambda>i n. if s ! i = d then Suc n else n) [0..<k] n0
     = n0 + length (filter (\<lambda>i. s ! i = d) [0..<k])"
  by (induction k) simp_all

lemma split_count_single:
  "split_count s [d] = Suc (length (filter (\<lambda>i. s ! i = d) [0..<length s]))"
  by (simp add: split_count_def count_fold)

lemma scan_fold:
  "fold (\<lambda>i st. fold (split_mark i) [d] st) [0..<length s] (s @ rest, tab)
     = (map (\<lambda>c. if c = d then NUL else c) s @ rest,
        tab @ map Suc (filter (\<lambda>i. s ! i = d) [0..<length s]))"
proof (induction s arbitrary: rest rule: rev_induct)
  case Nil
  show ?case by simp
next
  case (snoc x xs)
  let ?f = "\<lambda>c. if c = d then NUL else c"
  have same: "filter (\<lambda>i. (xs @ [x]) ! i = d) [0..<length xs]
                = filter (\<lambda>i. xs ! i = d) [0..<length xs]"
    by (rule filter_cong) (simp_all add: nth_append)
  have nth: "(map ?f xs @ y # rest) ! length xs = y" for y
    using nth_append_length [of "map ?f xs" y rest] by simp
  have upd: "(map ?f xs @ y # rest)[length xs := v] = map ?f xs @ v # rest" for y v
    using list_update_length [of "map ?f xs" y rest v] by simp
  have "fold (\<lambda>i st. fold (split_mark i) [d] st) [0..<length (xs @ [x])] ((xs @ [x]) @ rest, tab)
          = split_mark (length xs) d
              (fold (\<lambda>i st. fold (split_mark i) [d] st) [0..<length xs] (xs @ x # rest, tab))"
    by simp
  also have "\<dots> = split_mark (length xs) d
              (map ?f xs @ x # rest, tab @ map Suc (filter (\<lambda>i. xs ! i = d) [0..<length xs]))"
    by (simp only: snoc [of "x # rest"])
  also have "\<dots> = (map ?f (xs @ [x]) @ rest,
        tab @ map Suc (filter (\<lambda>i. (xs @ [x]) ! i = d) [0..<length (xs @ [x])]))"
    by (simp add: same split_mark_def nth upd)
  finally show ?case .
qed

lemma split_scan_single:
  "split_scan s [d]
     = (map (\<lambda>c. if c = d then NUL else c) s @ [NUL],
        0 # map Suc (filter (\<lambda>i. s ! i = d) [0..<length s]))"
  using scan_fold [of d s "[NUL]" "[0]"] by (simp add: split_scan_def)

lemma offsets_Cons:
  "filter (\<lambda>i. (c # cs) ! i = d) [0..<Suc (length cs)]
     = (if c = d then [0] else []) @ map Suc (filter (\<lambda>i. cs ! i = d) [0..<length cs])"
proof -
  have "[0..<Suc (length cs)] = 0 # map Suc [0..<length cs]"
    by (simp add: upt_conv_Cons map_Suc_upt del: upt_Suc)
  then show ?thesis by (simp add: filter_map comp_def del: upt_Suc)
qed

lemma cstr_at_Suc: "cstr_at (x # b) (Suc k) = cstr_at b k"
  by (simp add: cstr_at_def)

lemma slots_rejoin:
  assumes "c_string s" and "d \<noteq> NUL"
  shows "concat (interpose [d]
           (map (cstr_at (map (\<lambda>c. if c = d then NUL else c) s @ [NUL]))
              (0 # map Suc (filter (\<lambda>i. s ! i = d) [0..<length s])))) = s"
  using assms(1)
proof (induction s)
  case Nil
  show ?case by (simp add: cstr_at_def)
next
  case (Cons c cs)
  let ?f = "\<lambda>c. if c = d then NUL else c"
  let ?offs = "filter (\<lambda>i. cs ! i = d) [0..<length cs]"
  let ?G = "cstr_at (map ?f cs @ [NUL])"
  let ?G' = "cstr_at (map ?f (c # cs) @ [NUL])"
  from Cons.prems have c: "c \<noteq> NUL" and cs: "c_string cs" by (auto simp: c_string_def)
  have IH: "concat (interpose [d] (?G 0 # map ?G (map Suc ?offs))) = cs"
    using Cons.IH [OF cs] by simp
  have slots: "map ?G' (0 # map Suc (filter (\<lambda>i. (c # cs) ! i = d) [0..<length (c # cs)]))
                 = ?G' 0 # (if c = d then [?G 0] else []) @ map ?G (map Suc ?offs)"
    by (simp add: offsets_Cons cstr_at_Suc del: upt_Suc)
  show ?case
  proof (cases "c = d")
    case True
    have "?G' 0 = []" using True by (simp add: cstr_at_def)
    with True IH show ?thesis unfolding slots by simp
  next
    case False
    have "?G' 0 = c # ?G 0" using False c by (simp add: cstr_at_def)
    with False IH show ?thesis unfolding slots by (cases ?offs) simp_all
  qed
qed


lemma takeWhile_Some: "takeWhile (\<lambda>e. e \<noteq> None) (map Some xs @ None # ys) = map Some xs"
  by (induction xs) simp_all

lemma cstr_at_whole: "c_string s \<Longrightarrow> cstr_at (s @ NUL # r) 0 = s"
  by (induction s) (auto simp: cstr_at_def c_string_def)

lemma ustrsplit_single:
  "ustrsplit True (Some u) (Some s) (Some [d]) h
     = Inr (Item_str (fresh h), Some (u\<lparr>p_list := Some (fresh h)\<rparr>),
            (fresh h,
             \<lparr>p_next = p_list u, error = 0,
              str = Vec (map Some (0 # map Suc (filter (\<lambda>i. s ! i = d) [0..<length s])) @ [None])
                      (map (\<lambda>c. if c = d then NUL else c) s @ [NUL])\<rparr>) # h)"
  by (simp add: ustrsplit_def split_scan_single split_count_single calloc_item_def
      priv_usch_stash_def Let_def)

text \<open>
  Claim C2. For every C string \<open>s\<close> and every delimiter set of the single byte
  \<open>d\<close>, \<^verbatim>\<open>ustrsplit\<close> (arena present, allocation granted) returns a vector whose
  slots, handed to \<^verbatim>\<open>ustrjoinv\<close> with the string of the delimiter byte between
  each two of them, give back a string equal to \<open>s\<close>. Adjacent delimiters need not
  be excluded: they produce empty slots.
\<close>

theorem split_join_roundtrip:
  assumes "c_string s" and "d \<noteq> NUL"
  shows "\<exists>p u1 h1 slots q u2 h2.
       ustrsplit True (Some u) (Some s) (Some [d]) h = Inr (p, u1, h1)
     \<and> vector_at h1 p = Some slots
     \<and> ustrjoinv True u1 (Some (interpose [d] slots)) h1 = (q, u2, h2)
     \<and> string_at h2 q = Some s"
proof -
  let ?tab = "0 # map Suc (filter (\<lambda>i. s ! i = d) [0..<length s])"
  let ?bytes = "map (\<lambda>c. if c = d then NUL else c) s @ [NUL]"
  let ?a = "fresh h"
  let ?u1 = "Some (u\<lparr>p_list := Some ?a\<rparr>)"
  let ?h1 = "(?a, \<lparr>p_next = p_list u, error = 0, str = Vec (map Some ?tab @ [None]) ?bytes\<rparr>) # h"
  let ?slots = "map (cstr_at ?bytes) ?tab"
  have split: "ustrsplit True (Some u) (Some s) (Some [d]) h = Inr (Item_str ?a, ?u1, ?h1)"
    by (rule ustrsplit_single)
  have "takeWhile (\<lambda>e. e \<noteq> None) (map Some ?tab @ [None]) = map Some ?tab"
    by (rule takeWhile_Some)
  then have vec: "vector_at ?h1 (Item_str ?a) = Some ?slots"
    by (simp add: vector_at_def comp_def del: upt_Suc takeWhile.simps)
  have joined: "concat (interpose [d] ?slots) = s"
    using slots_rejoin [OF assms] .
  obtain q u2 h2 where j: "ustrjoinv True ?u1 (Some (interpose [d] ?slots)) ?h1 = (q, u2, h2)"
    by (cases "ustrjoinv True ?u1 (Some (interpose [d] ?slots)) ?h1") blast
  have "string_at h2 q = Some s"
    using j joined cstr_at_whole [OF assms(1), of "[]"]
    by (auto simp: ustrjoinv_def calloc_item_def priv_usch_stash_def string_at_def
        simp del: upt_Suc interpose.simps)
  with split vec j show ?thesis by blast
qed

theorem split_join_roundtrip_witness:
  "c_string ''a,b,,c'' \<and> CHR '','' \<noteq> NUL
   \<and> (\<exists>p u1 h1 slots q u2 h2.
         ustrsplit True (Some \<lparr>p_list = None\<rparr>) (Some ''a,b,,c'') (Some '','') []
           = Inr (p, u1, h1)
       \<and> vector_at h1 p = Some slots
       \<and> ustrjoinv True u1 (Some (interpose '','' slots)) h1 = (q, u2, h2)
       \<and> string_at h2 q = Some ''a,b,,c'')"
proof -
  have s: "c_string ''a,b,,c''" by (simp add: c_string_def)
  have d: "CHR '','' \<noteq> NUL" by simp
  from split_join_roundtrip [OF s d, of "\<lparr>p_list = None\<rparr>" "[]"] s d
  show ?thesis by blast
qed

subsection \<open>The tokenizer stays inside its block\<close>

lemma count_inner:
  "fold (\<lambda>d n. if c = d then Suc n else n) ds n = n + length (filter (\<lambda>d. c = d) ds)"
  by (induction ds arbitrary: n) simp_all

lemma mark_inner:
  assumes "NUL \<notin> set ds" and "i < length p"
  shows "length (snd (fold (split_mark i) ds (p, tab)))
           \<le> length tab + length (filter (\<lambda>d. p ! i = d) ds)
         \<and> length (fst (fold (split_mark i) ds (p, tab))) = length p
         \<and> (\<forall>j. j \<noteq> i \<longrightarrow> fst (fold (split_mark i) ds (p, tab)) ! j = p ! j)"
  using assms
proof (induction ds arbitrary: p tab)
  case Nil
  show ?case by simp
next
  case (Cons d ds)
  from Cons.prems have d: "d \<noteq> NUL" and ds: "NUL \<notin> set ds" and i: "i < length p" by auto
  show ?case
  proof (cases "p ! i = d")
    case False
    with Cons.IH [OF ds i, of tab] show ?thesis by (simp add: split_mark_def)
  next
    case True
    have none: "filter (\<lambda>d'. p[i := NUL] ! i = d') ds = []"
      using i ds by (auto simp: filter_empty_conv)
    have i': "i < length (p[i := NUL])" using i by simp
    from Cons.IH [OF ds i', of "tab @ [Suc i]"] True none
    show ?thesis by (simp add: split_mark_def)
  qed
qed

lemma scan_bounded:
  assumes "NUL \<notin> set ds" and "k \<le> length s"
  shows "length (snd (fold (\<lambda>i st. fold (split_mark i) ds st) [0..<k] (s @ [NUL], [0])))
           \<le> fold (\<lambda>i n. fold (\<lambda>d n. if s ! i = d then Suc n else n) ds n) [0..<k] 1
         \<and> length (fst (fold (\<lambda>i st. fold (split_mark i) ds st) [0..<k] (s @ [NUL], [0])))
             = Suc (length s)
         \<and> (\<forall>j. k \<le> j \<and> j < length s \<longrightarrow>
               fst (fold (\<lambda>i st. fold (split_mark i) ds st) [0..<k] (s @ [NUL], [0])) ! j = s ! j)"
  using assms(2)
proof (induction k)
  case 0
  show ?case by (simp add: nth_append)
next
  case (Suc k)
  let ?st = "fold (\<lambda>i st. fold (split_mark i) ds st) [0..<k] (s @ [NUL], [0])"
  let ?n = "fold (\<lambda>i n. fold (\<lambda>d n. if s ! i = d then Suc n else n) ds n) [0..<k] 1"
  from Suc have IH: "length (snd ?st) \<le> ?n" "length (fst ?st) = Suc (length s)"
    "\<forall>j. k \<le> j \<and> j < length s \<longrightarrow> fst ?st ! j = s ! j" and k: "k < length s"
    by simp_all
  have k': "k < length (fst ?st)" using IH(2) k by simp
  have at_k: "fst ?st ! k = s ! k" using IH(3) k by simp
  note m = mark_inner [OF assms(1) k', of "snd ?st"]
  have step: "fold (\<lambda>i st. fold (split_mark i) ds st) [0..<Suc k] (s @ [NUL], [0])
                = fold (split_mark k) ds (fst ?st, snd ?st)"
    by simp
  have cnt: "fold (\<lambda>i n. fold (\<lambda>d n. if s ! i = d then Suc n else n) ds n) [0..<Suc k] 1
               = ?n + length (filter (\<lambda>d. s ! k = d) ds)"
    by (simp add: count_inner)
  show ?case
    unfolding step cnt using m IH at_k by auto
qed

text \<open>
  The table of \<^verbatim>\<open>ustrsplit\<close> never receives more entries than were counted
  for it, so the block is never overrun and a NULL entry always ends the table.
\<close>

lemma split_table_fits:
  "c_string ds \<Longrightarrow> length (snd (split_scan s ds)) \<le> split_count s ds"
  using scan_bounded [of ds "length s" s]
  by (simp add: split_scan_def split_count_def c_string_def)

lemma ustrsplit_no_fault:
  assumes "\<forall>ds. p_delims = Some ds \<longrightarrow> c_string ds"
  shows "\<exists>r. ustrsplit ok p_ustash p_in p_delims h = Inr r"
proof (cases "\<exists>u s ds. p_ustash = Some u \<and> p_in = Some s \<and> p_delims = Some ds")
  case False
  then show ?thesis
    by (auto simp: ustrsplit_def split: option.splits)
next
  case True
  then obtain u s ds where eq: "p_ustash = Some u" "p_in = Some s" "p_delims = Some ds"
    by blast
  with assms have "c_string ds" by simp
  then have "length (snd (split_scan s ds)) \<le> split_count s ds"
    by (rule split_table_fits)
  then show ?thesis
    unfolding eq
    by (auto simp: ustrsplit_def Let_def calloc_item_def priv_usch_stash_def
        split: prod.splits option.splits)
qed

subsection \<open>Ownership of returned pointers\<close>

lemma ustrsplit_owned:
  "ustrsplit ok p_ustash p_in p_delims h = Inr (r, p_ustash', h') \<Longrightarrow>
   r = Null \<or> arena_owned r p_ustash' h'"
  by (auto simp: ustrsplit_def calloc_item_def priv_usch_stash_def arena_owned_def Let_def
      split: option.splits prod.splits if_splits)

lemma ustrjoinv_owned:
  "ustrjoinv ok p_ustash pp_strings h = (r, p_ustash', h') \<Longrightarrow>
   r = Emptystr \<or> arena_owned r p_ustash' h'"
  by (auto simp: ustrjoinv_def calloc_item_def priv_usch_stash_def arena_owned_def
      split: option.splits prod.splits if_splits)

lemma ustrexpv_owned:
  "ustrexpv env ok p_ustash pp_strings h = Inr (r, p_ustash', h') \<Longrightarrow>
   r = Emptyarr \<or> arena_owned r p_ustash' h'"
  by (auto simp: ustrexpv_def calloc_item_def priv_usch_stash_def arena_owned_def
      split: option.splits prod.splits if_splits sum.splits)

text \<open>
  Claim C9. Whatever the arguments, the allocator and the file system do: a pointer
  that \<^verbatim>\<open>ustrsplit\<close> returns when it succeeds (it is not NULL), and every pointer
  that \<^verbatim>\<open>ustrjoinv\<close> or \<^verbatim>\<open>ustrexpv\<close> returns from a call that runs to its end
  without a fault, is the static empty sentinel of the function or points into a live
  block that the call has pushed onto the caller's arena.
\<close>

theorem returned_pointer_owned:
  "(ustrsplit ok p_ustash p_in p_delims h = Inr (r1, u1, h1) \<and> r1 \<noteq> Null
      \<longrightarrow> arena_owned r1 u1 h1)
   \<and> (ustrjoinv ok p_ustash pp_strings h = (r2, u2, h2)
      \<longrightarrow> r2 = Emptystr \<or> arena_owned r2 u2 h2)
   \<and> (ustrexpv env ok p_ustash pp_strings h = Inr (r3, u3, h3)
      \<longrightarrow> r3 = Emptyarr \<or> arena_owned r3 u3 h3)"
  using ustrsplit_owned [of ok p_ustash p_in p_delims h r1 u1 h1]
    ustrjoinv_owned [of ok p_ustash pp_strings h r2 u2 h2]
    ustrexpv_owned [of env ok p_ustash pp_strings h r3 u3 h3]
  by blast

theorem returned_pointer_owned_witness:
  "(\<exists>r u h'. ustrsplit True (Some \<lparr>p_list = None\<rparr>) (Some ''a,b'') (Some '','') []
                 = Inr (r, u, h') \<and> r \<noteq> Null \<and> arena_owned r u h')
   \<and> (\<exists>r u h'. ustrjoinv True (Some \<lparr>p_list = None\<rparr>) (Some [''a'', ''b'']) []
                 = (r, u, h') \<and> r \<noteq> Emptystr \<and> arena_owned r u h')
   \<and> (\<exists>r u h'. ustrexpv \<lparr>fs_matches = (\<lambda>p. Some []), node_alloc_ok = (\<lambda>i. True),
                           argv_alloc_ok = True\<rparr>
                   True (Some \<lparr>p_list = None\<rparr>) (Some [''x'']) []
                 = Inr (r, u, h') \<and> r \<noteq> Emptyarr \<and> arena_owned r u h')"
proof -
  let ?u = "Some \<lparr>p_list = None\<rparr>"
  let ?u' = "Some \<lparr>p_list = Some 1\<rparr>"
  let ?env = "\<lparr>fs_matches = (\<lambda>p. Some []), node_alloc_ok = (\<lambda>i. True), argv_alloc_ok = True\<rparr>"
  let ?h1 = "[(1::nat, \<lparr>p_next = None, error = 0,
               str = Vec [Some 0, Some 2, None] [CHR ''a'', NUL, CHR ''b'', NUL]\<rparr>)]"
  let ?h2 = "[(1::nat, \<lparr>p_next = None, error = 0, str = Raw [CHR ''a'', CHR ''b'', NUL]\<rparr>)]"
  let ?h3 = "[(1::nat, \<lparr>p_next = None, error = 0, str = Vec [Some 0, None] [CHR ''x'', NUL]\<rparr>)]"
  have e1: "ustrsplit True ?u (Some ''a,b'') (Some '','') [] = Inr (Item_str 1, ?u', ?h1)"
    by (simp add: ustrsplit_single fresh_def)
  have e2: "ustrjoinv True ?u (Some [''a'', ''b'']) [] = (Item_str 1, ?u', ?h2)"
    by (simp add: ustrjoinv_def calloc_item_def priv_usch_stash_def fresh_def)
  have e3: "ustrexpv ?env True ?u (Some [''x'']) [] = Inr (Item_str 1, ?u', ?h3)"
    by (simp add: ustrexpv_def priv_usch_globexpand_def glob_call_def read_argv_def
        calloc_item_def priv_usch_stash_def fresh_def)
  note t = returned_pointer_owned [of True ?u "Some ''a,b''" "Some '',''" "[]"
      "Item_str 1" ?u' ?h1 "Some [''a'', ''b'']" "Item_str 1" ?u' ?h2]
  have o1: "arena_owned (Item_str 1) ?u' ?h1" and o2: "arena_owned (Item_str 1) ?u' ?h2"
    using t e1 e2 by simp_all
  note t3 = returned_pointer_owned [of True ?u "Some ''a,b''" "Some '',''" "[]"
      "Item_str 1" ?u' ?h1 "Some [''x'']" "Item_str 1" ?u' ?h2 ?env "Item_str 1" ?u' ?h3]
  have o3: "arena_owned (Item_str 1) ?u' ?h3"
    using t3 e3 by simp
  show ?thesis using e1 e2 e3 o1 o2 o3 by simp
qed


subsection \<open>Error returns of the tokenizer\<close>

lemma ustrsplit_failure_paths:
  "ustrsplit ok None p_in p_delims h = Inr (Null, None, h)"
  "ustrsplit ok (Some u) None p_delims h = Inr (Null, Some u, h)"
  "ustrsplit ok (Some u) (Some s) None h = Inr (Null, Some u, h)"
  "ustrsplit False (Some u) (Some s) (Some ds) h = Inr (Null, Some u, h)"
  by (simp_all add: ustrsplit_def calloc_item_def Let_def split: prod.splits)

text \<open>
  Claim C5 does not hold of the code. The header documents that \<^verbatim>\<open>ustrsplit\<close>
  "returns 1 element NUL terminated vector upon error"; the function returns NULL,
  which is no vector at all, when the arena, the input or the delimiter set is NULL
  and when \<^verbatim>\<open>calloc\<close> fails. The four failing calls, evaluated:
\<close>

theorem ustrsplit_error_returns_null:
  "ustrsplit True None (Some ''a,b'') (Some '','') [] = Inr (Null, None, [])
   \<and> ustrsplit True (Some \<lparr>p_list = None\<rparr>) None (Some '','') []
       = Inr (Null, Some \<lparr>p_list = None\<rparr>, [])
   \<and> ustrsplit True (Some \<lparr>p_list = None\<rparr>) (Some ''a,b'') None []
       = Inr (Null, Some \<lparr>p_list = None\<rparr>, [])
   \<and> ustrsplit False (Some \<lparr>p_list = None\<rparr>) (Some ''a,b'') (Some '','') []
       = Inr (Null, Some \<lparr>p_list = None\<rparr>, [])
   \<and> vector_at [] Null = None"
  by (simp add: ustrsplit_failure_paths vector_at_def)

subsection \<open>Expansion\<close>

lemma store_all_fill:
  "store_all (pre @ replicate (length xs + m) None) (length pre) xs
     = Inr (pre @ map Some xs @ replicate m None)"
proof (induction xs arbitrary: pre)
  case Nil
  show ?case by simp
next
  case (Cons x xs)
  have "(pre @ replicate (Suc (length xs + m)) None)[length pre := Some x]
          = (pre @ [Some x]) @ replicate (length xs + m) None"
    by (simp add: list_update_append)
  with Cons [of "pre @ [Some x]"] show ?case by simp
qed

lemma glob_args_no_separator:
  assumes "''--'' \<notin> set args"
    and "\<forall>i. node_alloc_ok env i"
    and "\<forall>a \<in> set args. fs_matches env a \<noteq> None"
  shows "glob_args env i args
           = Some (map (\<lambda>a. the (glob_call env a)) args, i + length args)"
  using assms(1,3)
proof (induction args arbitrary: i)
  case Nil
  show ?case by simp
next
  case (Cons a as)
  then show ?case using assms(2)
    by (auto simp: glob_call_def split: option.splits)
qed

text \<open>
  Without a separator the expansion is as the specification describes it: the results
  of all arguments in order, NULL-terminated, a pattern without a match standing for
  itself.
\<close>

lemma globexpand_no_separator:
  assumes "''--'' \<notin> set args"
    and "\<forall>i. node_alloc_ok env i" and "argv_alloc_ok env"
    and "\<forall>a \<in> set args. fs_matches env a \<noteq> None"
  shows "priv_usch_globexpand env args
           = Inr (Some (map Some (concat (map (\<lambda>a. the (glob_call env a)) args)) @ [None]),
                  map (\<lambda>a. the (glob_call env a)) args)"
proof -
  let ?nodes = "map (\<lambda>a. the (glob_call env a)) args"
  have g: "glob_args env 0 args = Some (?nodes, length args)"
    using glob_args_no_separator [OF assms(1,2,4), of 0] by simp
  have fill: "store_all (replicate (length (concat ?nodes) + 1) None) 0 (concat ?nodes)
                = Inr (map Some (concat ?nodes) @ [None])"
    using store_all_fill [of "[]" "concat ?nodes" 1] by simp
  show ?thesis
    using assms(3) fill by (simp add: priv_usch_globexpand_def g Let_def)
qed

lemma glob_call_no_match: "fs_matches env p = Some [] \<Longrightarrow> glob_call env p = Some [p]"
  by (simp add: glob_call_def)

text \<open>
  Claim C1 does not hold of the code. The tail loop stores argument \<open>i\<close> at
  \<^verbatim>\<open>pp_expanded_argv[j + i]\<close>, with \<open>i\<close> the index in the original arguments and
  \<^verbatim>\<open>j\<close> the leftover of the copy loop, not at the slot after the expansion
  results. With the separator first, the tail lands one slot late, behind a NULL: the
  sequence the caller reads is empty. With one expanded argument before the
  separator, the tail is written past the end of the array.
\<close>

theorem globexpand_tail_misplaced:
  "priv_usch_globexpand (env\<lparr>argv_alloc_ok := True\<rparr>) [''--'', ''*'']
     = Inr (Some [None, Some ''*''], [])
   \<and> read_argv [None, Some ''*''] = Inr []
   \<and> priv_usch_globexpand
        \<lparr>fs_matches = (\<lambda>p. Some []), node_alloc_ok = (\<lambda>i. True), argv_alloc_ok = True\<rparr>
        [''ls'', ''--'', ''*'']
     = Inl Heap_overflow"
  by (simp add: priv_usch_globexpand_def glob_call_def read_argv_def)

text \<open>
  Claim C7 does not hold of the code, by the same defect as C1. A pattern without a
  match does come out of \<^verbatim>\<open>glob\<close> as itself and is copied into the array, but the
  misplaced tail can overwrite it: here \<^verbatim>\<open>a*\<close> matches four entries, \<^verbatim>\<open>p\<close>
  matches none and is stored in slot 4, and the tail loop then stores \<^verbatim>\<open>t\<close> in
  slot \<^verbatim>\<open>j + i = 1 + 3\<close>. The result no longer holds \<^verbatim>\<open>p\<close>.
\<close>

theorem globexpand_nomatch_overwritten:
  "priv_usch_globexpand
     \<lparr>fs_matches = (\<lambda>p. if p = ''a*'' then Some [''a1'', ''a2'', ''a3'', ''a4''] else Some []),
      node_alloc_ok = (\<lambda>i. True), argv_alloc_ok = True\<rparr>
     [''a*'', ''p'', ''--'', ''t'']
   = Inr (Some [Some ''a1'', Some ''a2'', Some ''a3'', Some ''a4'', Some ''t'', None, None],
          [[''a1'', ''a2'', ''a3'', ''a4''], [''p'']])"
  by (simp add: priv_usch_globexpand_def glob_call_def)


subsection \<open>The \<^verbatim>\<open>cd\<close> builtin\<close>

text \<open>
  Claim C4, as amended. For every expanded argument sequence whose first token is
  \<^verbatim>\<open>cd\<close>, the executor returns status 0 having done nothing but one
  \<^verbatim>\<open>chdir\<close> in the calling process: no pipe, no fork, no wait. The target is the
  second token when there is one and it does not begin with \<^verbatim>\<open>|\<close>; it is the
  value of \<^verbatim>\<open>HOME\<close> when there is no second token, and also when the second token
  begins with \<^verbatim>\<open>|\<close>, because pipe separators are rewritten to NULL before the
  builtin is looked for.
\<close>

theorem cd_builtin:
  "exec_argv env capture (''cd'' # args)
     = (Some (Returned 0),
        \<lparr>trace = [Ev_chdir (case args of
                               [] \<Rightarrow> env_HOME env
                             | t # ts \<Rightarrow> if t \<noteq> [] \<and> hd t = CHR ''|'' then env_HOME env
                                        else Some t)],
         n_spawned = 0, child_pid = 0, captured = None\<rparr>)"
  by (cases args) (simp_all add: exec_argv_def rewrite_pipes_def slot_def ustreq_def Let_def)

text \<open>
  The claim as stated fails where the second token is a pipe separator: for
  \<^verbatim>\<open>cd | wc\<close> the target is \<^verbatim>\<open>HOME\<close>, not the second token.
\<close>

theorem cd_builtin_counterexample:
  "trace (snd (exec_argv
       \<lparr>globbing = \<lparr>fs_matches = (\<lambda>p. Some []), node_alloc_ok = (\<lambda>i. True),
                     argv_alloc_ok = True\<rparr>,
        env_HOME = Some ''/home/u'', pipe_fds = (\<lambda>k. (3, 4)), fork_pid = (\<lambda>k. 100),
        pipe_output = [], capture_alloc_ok = (\<lambda>n. True), wait_results = [W_exited 0]\<rparr>
       False [''cd'', ''|'', ''wc'']))
     = [Ev_chdir (Some ''/home/u'')]
   \<and> trace (snd (exec_argv
       \<lparr>globbing = \<lparr>fs_matches = (\<lambda>p. Some []), node_alloc_ok = (\<lambda>i. True),
                     argv_alloc_ok = True\<rparr>,
        env_HOME = Some ''/home/u'', pipe_fds = (\<lambda>k. (3, 4)), fork_pid = (\<lambda>k. 100),
        pipe_output = [], capture_alloc_ok = (\<lambda>n. True), wait_results = [W_exited 0]\<rparr>
       False [''cd'', ''|'', ''wc'']))
     \<noteq> [Ev_chdir (Some ''|'')]"
  by (simp add: exec_argv_def rewrite_pipes_def slot_def ustreq_def Let_def)

text \<open>Any other first token takes the stage path, which forks.\<close>

lemma other_command_forks:
  "trace (snd (exec_argv env False [''ls'']))
     = [Ev_pipe, Ev_fork [''ls''] 0 True True False, Ev_close (snd (pipe_fds env 0)),
        Ev_close (fst (pipe_fds env 0)), Ev_waitpid (fork_pid env 0)]"
  by (simp add: exec_argv_def rewrite_pipes_def slot_def ustreq_def Let_def stage_of_def
      priv_usch_run_def priv_usch_command_def)

subsection \<open>Executable resolution\<close>

lemma zeroed_copy_has_no_slash:
  "k \<le> n \<Longrightarrow>
   fold (\<lambda>i b. if replicate n NUL ! i = CHR ''/'' then int i else b) [0..<k] b0 = b0"
  by (induction k) simp_all

text \<open>
  Every name that starts with \<^verbatim>\<open>/\<close> or \<^verbatim>\<open>.\<close> is answered with -1 and nothing
  is stored through \<^verbatim>\<open>pp_dest\<close>, whatever the file system holds.
\<close>

lemma whereis_relative_fails:
  "c = CHR ''/'' \<or> c = CHR ''.'' \<Longrightarrow>
   priv_usch_cached_whereis env dirs (c # cs) = Inr (- 1, None)"
  using zeroed_copy_has_no_slash [of "Suc (length cs)" "Suc (length cs)" "- 1"]
  by (auto simp: priv_usch_cached_whereis_def Let_def simp del: upt_Suc replicate.simps)

text \<open>
  Any other name is probed in the directories in order; the first path that
  \<^verbatim>\<open>stat\<close> accepts is stored, without its terminator.
\<close>

lemma probe_paths_first:
  "dest_alloc_ok env \<Longrightarrow>
   probe_paths env dirs item
     = (case find (\<lambda>d. stat_ok env (d @ ''/'' @ item)) dirs of
          None \<Rightarrow> (0, None)
        | Some d \<Rightarrow> (1, Some (map Some (d @ ''/'' @ item) @ [None])))"
  by (induction dirs) (simp_all add: Let_def)

text \<open>
  For a name that starts with neither byte the whole function is the probing loop:
  the stored buffer holds the characters of the first path that \<^verbatim>\<open>stat\<close> accepts
  and then one byte that was never written, so it is not a C string.
\<close>

lemma whereis_search_unterminated:
  assumes "dest_alloc_ok env"
    and "name = [] \<or> (hd name \<noteq> CHR ''/'' \<and> hd name \<noteq> CHR ''.'')"
  shows "priv_usch_cached_whereis env dirs name
           = Inr (case find (\<lambda>d. stat_ok env (d @ ''/'' @ name)) dirs of
                    None \<Rightarrow> (0, None)
                  | Some d \<Rightarrow> (1, Some (map Some (d @ ''/'' @ name) @ [None])))"
proof -
  from assms(2) have "priv_usch_cached_whereis env dirs name = Inr (probe_paths env dirs name)"
    by (auto simp: priv_usch_cached_whereis_def)
  with assms(1) show ?thesis by (simp add: probe_paths_first)
qed

text \<open>
  Claim C6 does not hold of the code. A name that starts with \<^verbatim>\<open>.\<close> (or
  \<^verbatim>\<open>/\<close>) is never resolved relative to its directory component: the copy of the
  name that is searched for its last \<^verbatim>\<open>/\<close> is a zeroed buffer the name was never
  copied into, so the function returns -1 and stores nothing even where the file
  exists. In the search-path branch the first existing path is found, but the buffer
  handed back lacks its terminator: \<^verbatim>\<open>memcpy\<close> copies one byte fewer than
  \<^verbatim>\<open>malloc\<close> reserved, and the last byte stays indeterminate. And a name that
  contains a path separator after its first byte is searched in the path list, the
  test being on the first byte only. The three calls, evaluated:
\<close>

theorem whereis_relative_unresolved:
  "priv_usch_cached_whereis
     \<lparr>stat_ok = (\<lambda>p. True), relarray_alloc_ok = True, item_copy_alloc_ok = True,
      dest_alloc_ok = True\<rparr> [''/bin''] ''./prog''
     = Inr (- 1, None)
   \<and> priv_usch_cached_whereis
     \<lparr>stat_ok = (\<lambda>p. p = ''/usr/bin/ls''), relarray_alloc_ok = True,
      item_copy_alloc_ok = True, dest_alloc_ok = True\<rparr> [''/bin'', ''/usr/bin''] ''ls''
     = Inr (1, Some (map Some ''/usr/bin/ls'' @ [None]))
   \<and> priv_usch_cached_whereis
     \<lparr>stat_ok = (\<lambda>p. p = ''/bin/sub/prog''), relarray_alloc_ok = True,
      item_copy_alloc_ok = True, dest_alloc_ok = True\<rparr> [''/bin''] ''sub/prog''
     = Inr (1, Some (map Some ''/bin/sub/prog'' @ [None]))"
  by (simp add: priv_usch_cached_whereis_def Let_def)

subsection \<open>Arena states are what the library builds\<close>

lemma fresh_not_live: "map_of h (fresh h) = None"
proof -
  have "k \<le> fold max (map fst h) 0" if "k \<in> fst ` set h" for k
  proof -
    have "fold max (map fst h) 0 = Max (set (0 # map fst h))"
      by (simp only: Max.set_eq_fold)
    moreover have "k \<le> Max (set (0 # map fst h))"
      using that by (intro Max_ge) auto
    ultimately show ?thesis by simp
  qed
  then have "fresh h \<notin> fst ` set h"
    by (fastforce simp: fresh_def)
  then show ?thesis by (simp add: map_of_eq_None_iff)
qed

lemma chain_live: "chain h p as \<Longrightarrow> a \<in> set as \<Longrightarrow> map_of h a \<noteq> None"
  by (induction as arbitrary: p) (auto split: option.splits)

lemma chain_new_block:
  "chain h p as \<Longrightarrow> map_of h a = None \<Longrightarrow> chain ((a, x) # h) p as"
  by (induction as arbitrary: p) (auto split: option.splits)

text \<open>
  The empty \<^verbatim>\<open>ustash\<close> is an arena state, and pushing a newly allocated block onto
  an arena state gives an arena state with the block in front.
\<close>

lemma chain_push:
  assumes "chain h (p_list u) as"
    and "calloc_item True pl h = (Some a, h1)"
    and "priv_usch_stash (Some u) (Some a) h1 = (status, p_ustash', h2)"
  shows "\<exists>u'. p_ustash' = Some u' \<and> status = 0 \<and> chain h2 (p_list u') (a # as)"
proof -
  from assms(2) have a: "a = fresh h"
    and h1: "h1 = (a, \<lparr>p_next = None, error = 0, str = pl\<rparr>) # h"
    by (auto simp: calloc_item_def)
  have "map_of h a = None" unfolding a by (rule fresh_not_live)
  with assms(1) have "chain ((a, \<lparr>p_next = p_list u, error = 0, str = pl\<rparr>) # h) (p_list u) as"
    by (rule chain_new_block)
  with assms(3) show ?thesis
    by (auto simp: priv_usch_stash_def h1)
qed

end
